theory Spec2Isabelle
  imports Main "HOL-Library.Sublist"
begin

section \<open>Text and characters\<close>

text \<open>
  The script works on a Python \<open>str\<close>, a sequence of Unicode code points. A character
  is modelled by its code point, a text by the list of its code points.
\<close>

type_synonym pychar = nat
type_synonym str = "pychar list"

definition SLASH :: pychar where "SLASH = 47"
definition STAR :: pychar where "STAR = 42"
definition DQUOTE :: pychar where "DQUOTE = 34"
definition SQUOTE :: pychar where "SQUOTE = 39"
definition BACKSLASH :: pychar where "BACKSLASH = 92"
definition NL :: pychar where "NL = 10"
definition CR :: pychar where "CR = 13"

text \<open>\<open>s.startswith(prefix, i)\<close>: the slice of \<open>s\<close> from \<open>i\<close> begins with \<open>prefix\<close>.\<close>

definition startswith :: "str \<Rightarrow> str \<Rightarrow> nat \<Rightarrow> bool" where
  "startswith s pre i = (take (length pre) (drop i s) = pre)"

section \<open>The scan loop\<close>

datatype state = S_normal | S_line_comment | S_block_comment | S_string | S_char

text \<open>
  The variables of the loop: \<open>state\<close>, the index \<open>i\<close> and the list \<open>out_chars\<close> of the
  pieces appended so far (a piece is one character, or the two characters of a block
  comment delimiter).
\<close>

record scanner =
  state :: state
  i :: nat
  out_chars :: "str list"

text \<open>One execution of the loop body, for \<open>i < len(s)\<close>; \<open>c = s[i]\<close>.\<close>

definition body :: "str \<Rightarrow> scanner \<Rightarrow> scanner" where
  "body s v =
    (let c = s ! i v in
     case state v of
       S_normal \<Rightarrow>
         if startswith s [SLASH, SLASH] (i v) then
           v\<lparr>state := S_line_comment, i := i v + 2\<rparr>
         else if startswith s [SLASH, STAR] (i v) then
           v\<lparr>state := S_block_comment, out_chars := out_chars v @ [[SLASH, STAR]], i := i v + 2\<rparr>
         else if c = DQUOTE then
           v\<lparr>state := S_string, out_chars := out_chars v @ [[c]], i := i v + 1\<rparr>
         else if c = SQUOTE then
           v\<lparr>state := S_char, out_chars := out_chars v @ [[c]], i := i v + 1\<rparr>
         else
           v\<lparr>out_chars := out_chars v @ [[c]], i := i v + 1\<rparr>
     | S_line_comment \<Rightarrow>
         if c = NL then
           v\<lparr>out_chars := out_chars v @ [[c]], state := S_normal, i := i v + 1\<rparr>
         else
           v\<lparr>i := i v + 1\<rparr>
     | S_block_comment \<Rightarrow>
         if startswith s [STAR, SLASH] (i v) then
           v\<lparr>out_chars := out_chars v @ [[STAR, SLASH]], i := i v + 2, state := S_normal\<rparr>
         else
           v\<lparr>out_chars := out_chars v @ [[c]], i := i v + 1\<rparr>
     | S_string \<Rightarrow>
         if c = BACKSLASH \<and> i v + 1 < length s then
           v\<lparr>out_chars := out_chars v @ [[c], [s ! (i v + 1)]], i := i v + 2\<rparr>
         else if c = DQUOTE then
           v\<lparr>out_chars := out_chars v @ [[c]], i := i v + 1, state := S_normal\<rparr>
         else
           v\<lparr>out_chars := out_chars v @ [[c]], i := i v + 1\<rparr>
     | S_char \<Rightarrow>
         if c = BACKSLASH \<and> i v + 1 < length s then
           v\<lparr>out_chars := out_chars v @ [[c], [s ! (i v + 1)]], i := i v + 2\<rparr>
         else if c = SQUOTE then
           v\<lparr>out_chars := out_chars v @ [[c]], i := i v + 1, state := S_normal\<rparr>
         else
           v\<lparr>out_chars := out_chars v @ [[c]], i := i v + 1\<rparr>)"

lemma body_advances: "i v < i (body s v)"
  by (simp add: body_def Let_def split: state.split)

text \<open>\<open>while i < length: ...\<close>\<close>

function loop :: "str \<Rightarrow> scanner \<Rightarrow> scanner" where
  "loop s v = (if i v < length s then loop s (body s v) else v)"
  by pat_completeness auto
termination
proof (relation "measure (\<lambda>(s, v). length s - i v)")
  show "wf (measure (\<lambda>(s, v). length s - i v))" by simp
next
  fix s :: str and v :: scanner
  assume "i v < length s"
  moreover have "i v < i (body s v)" by (rule body_advances)
  ultimately show "((s, body s v), (s, v)) \<in> measure (\<lambda>(s, v). length s - i v)"
    by simp
qed

declare loop.simps [simp del]

text \<open>The loop cut off after at most \<open>k\<close> iterations, to speak about intermediate states.\<close>

fun run :: "str \<Rightarrow> nat \<Rightarrow> scanner \<Rightarrow> scanner" where
  "run s 0 v = v"
| "run s (Suc k) v = (if i v < length s then run s k (body s v) else v)"

definition init :: scanner where
  "init = \<lparr>state = S_normal, i = 0, out_chars = []\<rparr>"

text \<open>\<open>new_s = ''.join(out_chars)\<close> after the loop.\<close>

definition scan :: "str \<Rightarrow> str" where
  "scan s = concat (out_chars (loop s init))"

section \<open>The post-pass\<close>

text \<open>
  \<open>str.splitlines()\<close> breaks at the line boundaries of Python: LF, VT, FF, CR (CR LF
  counting as one), FS, GS, RS, NEL, LS and PS. The boundaries are not part of the
  lines, and a boundary at the very end opens no further line.
\<close>

definition is_linebreak :: "pychar \<Rightarrow> bool" where
  "is_linebreak c \<longleftrightarrow> c \<in> {10, 11, 12, 13, 28, 29, 30, 133, 8232, 8233}"

fun splitlines_from :: "str \<Rightarrow> str \<Rightarrow> str list" where
  "splitlines_from cur [] = (if cur = [] then [] else [cur])"
| "splitlines_from cur [c] = (if is_linebreak c then [cur] else [cur @ [c]])"
| "splitlines_from cur (c # d # cs) =
     (if c = CR \<and> d = NL then cur # splitlines_from [] cs
      else if is_linebreak c then cur # splitlines_from [] (d # cs)
      else splitlines_from (cur @ [c]) (d # cs))"

definition splitlines :: "str \<Rightarrow> str list" where
  "splitlines t = splitlines_from [] t"

text \<open>\<open>str.rstrip()\<close> removes the trailing characters for which \<open>str.isspace\<close> holds.\<close>

definition is_space :: "pychar \<Rightarrow> bool" where
  "is_space c \<longleftrightarrow>
     (9 \<le> c \<and> c \<le> 13) \<or> (28 \<le> c \<and> c \<le> 32) \<or> c = 133 \<or> c = 160 \<or> c = 5760 \<or>
     (8192 \<le> c \<and> c \<le> 8202) \<or> c = 8232 \<or> c = 8233 \<or> c = 8239 \<or> c = 8287 \<or> c = 12288"

definition rstrip :: "str \<Rightarrow> str" where
  "rstrip l = rev (dropWhile is_space (rev l))"

text \<open>\<open>sep.join(xs)\<close>\<close>

fun join :: "str \<Rightarrow> str list \<Rightarrow> str" where
  "join sep [] = []"
| "join sep [x] = x"
| "join sep (x # y # ys) = x @ sep @ join sep (y # ys)"

definition post :: "str \<Rightarrow> str" where
  "post new_s = (let new_lines = map rstrip (splitlines new_s) in join [NL] new_lines @ [NL])"

text \<open>The text written back for the text \<open>s\<close> read from the file.\<close>

definition strip_comments :: "str \<Rightarrow> str" where
  "strip_comments s = post (scan s)"

section \<open>The driver\<close>

text \<open>
  What the script sees of the file system: a path names a regular file with its bytes,
  a directory, or nothing. \<open>printed\<close> is the standard output, line by line.
\<close>

datatype entry = File string | Dir

record world =
  files :: "string \<rightharpoonup> entry"
  printed :: "string list"

text \<open>The script ends with an exit status, or with an exception that nothing catches.\<close>

datatype outcome = Exit nat | Uncaught

text \<open>
  The library calls whose results the script only passes on are parameters:
  \<open>path_str a\<close> is \<open>str(Path(a))\<close>, \<open>bak_path p\<close> is
  \<open>p.with_suffix(p.suffix + ".bak")\<close> (\<open>None\<close> when \<open>with_suffix\<close> raises),
  \<open>decode_utf8\<close> is the decoding done by \<open>read_text\<close> (\<open>None\<close> when it raises)
  and \<open>encode_utf8\<close> the encoding done by \<open>write_text\<close>.

  Two calls can raise before any file is touched. \<open>Path.exists()\<close> answers \<open>False\<close>
  when the operating system reports that there is no such file, and lets every other
  error of the operating system through (a name that is too long, a directory that may
  not be searched): \<open>stat_fails p\<close> says that the look-up of \<open>p\<close> raises in this way.
  \<open>print\<close> raises when the standard output does not take the line (a closed stream, a
  character the stream cannot encode): \<open>print_fails line\<close>. The script catches nothing.
\<close>

record platform =
  path_str :: "string \<Rightarrow> string"
  bak_path :: "string \<Rightarrow> string option"
  decode_utf8 :: "string \<Rightarrow> str option"
  encode_utf8 :: "str \<Rightarrow> string"
  stat_fails :: "string \<Rightarrow> bool"
  print_fails :: "string \<Rightarrow> bool"

text \<open>\<open>print(line)\<close>: the world with the line printed, or \<open>None\<close> when the call raises.\<close>

definition print :: "platform \<Rightarrow> string \<Rightarrow> world \<Rightarrow> world option" where
  "print pf line w =
     (if print_fails pf line then None else Some (w\<lparr>printed := printed w @ [line]\<rparr>))"

text \<open>The script from its first statement to its last.\<close>

definition main :: "platform \<Rightarrow> string list \<Rightarrow> world \<Rightarrow> outcome \<times> world" where
  "main pf argv w =
    (if length argv < 2 then
       (case print pf ''Usage: strip_comments.py <file>'' w of
          None \<Rightarrow> (Uncaught, w)
        | Some w' \<Rightarrow> (Exit 1, w'))
     else
       let p = path_str pf (argv ! 1) in
       if stat_fails pf p then (Uncaught, w)
       else if files w p = None then
         (case print pf (''File not found: '' @ p) w of
            None \<Rightarrow> (Uncaught, w)
          | Some w' \<Rightarrow> (Exit 2, w'))
       else
         case bak_path pf p of
           None \<Rightarrow> (Uncaught, w)
         | Some backup \<Rightarrow>
             (case print pf (''Creating backup: '' @ backup) w of
                None \<Rightarrow> (Uncaught, w)
              | Some w1 \<Rightarrow>
                  (case files w1 p of
                     Some (File bytes) \<Rightarrow>
                       if files w1 backup = Some Dir then (Uncaught, w1)
                       else
                         let w2 = w1\<lparr>files := (files w1)(backup \<mapsto> File bytes)\<rparr> in
                         (case files w2 p of
                            Some (File bytes2) \<Rightarrow>
                              (case decode_utf8 pf bytes2 of
                                 None \<Rightarrow> (Uncaught, w2)
                               | Some s \<Rightarrow>
                                   let new_s = strip_comments s in
                                   (case print pf (''Writing cleaned file: '' @ p) w2 of
                                      None \<Rightarrow> (Uncaught, w2)
                                    | Some w3 \<Rightarrow>
                                        let w4 = w3\<lparr>files :=
                                                   (files w3)(p \<mapsto> File (encode_utf8 pf new_s))\<rparr>
                                        in (case print pf ''Done.'' w4 of
                                              None \<Rightarrow> (Uncaught, w4)
                                            | Some w5 \<Rightarrow> (Exit 0, w5))))
                          | _ \<Rightarrow> (Uncaught, w2))
                   | _ \<Rightarrow> (Uncaught, w1))))"

section \<open>Auxiliary definitions\<close>

text \<open>ASCII literals as texts, for the examples.\<close>

definition ascii :: "string \<Rightarrow> str" where
  "ascii cs = map of_char cs"

text \<open>
  A platform for the examples: paths and ASCII file contents taken as they are, every
  look-up answered and every line printed.
\<close>

definition toy :: platform where
  "toy = \<lparr>path_str = (\<lambda>a. a), bak_path = (\<lambda>p. Some (p @ ''.bak'')),
          decode_utf8 = (\<lambda>b. Some (map of_char b)), encode_utf8 = map char_of,
          stat_fails = (\<lambda>p. False), print_fails = (\<lambda>line. False)\<rparr>"



text \<open>
  The output of the loop from a given state on the text that is still to be read, by
  recursion on that text: the same branches as \<open>body\<close>, in the same order.
\<close>

fun scanL :: "state \<Rightarrow> str \<Rightarrow> str" where
  "scanL st [] = []"
| "scanL S_normal [c] = [c]"
| "scanL S_normal (c # d # t) =
     (if c = SLASH \<and> d = SLASH then scanL S_line_comment t
      else if c = SLASH \<and> d = STAR then SLASH # STAR # scanL S_block_comment t
      else if c = DQUOTE then c # scanL S_string (d # t)
      else if c = SQUOTE then c # scanL S_char (d # t)
      else c # scanL S_normal (d # t))"
| "scanL S_line_comment (c # t) =
     (if c = NL then c # scanL S_normal t else scanL S_line_comment t)"
| "scanL S_block_comment [c] = [c]"
| "scanL S_block_comment (c # d # t) =
     (if c = STAR \<and> d = SLASH then STAR # SLASH # scanL S_normal t
      else c # scanL S_block_comment (d # t))"
| "scanL S_string [c] = [c]"
| "scanL S_string (c # d # t) =
     (if c = BACKSLASH then c # d # scanL S_string t
      else if c = DQUOTE then c # scanL S_normal (d # t)
      else c # scanL S_string (d # t))"
| "scanL S_char [c] = [c]"
| "scanL S_char (c # d # t) =
     (if c = BACKSLASH then c # d # scanL S_char t
      else if c = SQUOTE then c # scanL S_normal (d # t)
      else c # scanL S_char (d # t))"

text \<open>
  The loop once more, recording what happens to each stretch of the input: a piece is
  either copied to the output or discarded. The second argument collects the line
  comment that is being discarded; it is closed by the newline or by the end of input.
\<close>

datatype piece = Copied str | Discarded str

fun text_of :: "piece \<Rightarrow> str" where
  "text_of (Copied t) = t"
| "text_of (Discarded t) = t"

fun is_copied :: "piece \<Rightarrow> bool" where
  "is_copied (Copied t) = True"
| "is_copied (Discarded t) = False"

fun pieces :: "state \<Rightarrow> str \<Rightarrow> str \<Rightarrow> piece list" where
  "pieces S_line_comment r [] = [Discarded r]"
| "pieces S_line_comment r (c # t) =
     (if c = NL then Discarded r # Copied [c] # pieces S_normal [] t
      else pieces S_line_comment (r @ [c]) t)"
| "pieces st r [] = []"
| "pieces S_normal r [c] = [Copied [c]]"
| "pieces S_normal r (c # d # t) =
     (if c = SLASH \<and> d = SLASH then pieces S_line_comment [c, d] t
      else if c = SLASH \<and> d = STAR then Copied [c, d] # pieces S_block_comment [] t
      else if c = DQUOTE then Copied [c] # pieces S_string [] (d # t)
      else if c = SQUOTE then Copied [c] # pieces S_char [] (d # t)
      else Copied [c] # pieces S_normal [] (d # t))"
| "pieces S_block_comment r [c] = [Copied [c]]"
| "pieces S_block_comment r (c # d # t) =
     (if c = STAR \<and> d = SLASH then Copied [c, d] # pieces S_normal [] t
      else Copied [c] # pieces S_block_comment [] (d # t))"
| "pieces S_string r [c] = [Copied [c]]"
| "pieces S_string r (c # d # t) =
     (if c = BACKSLASH then Copied [c] # Copied [d] # pieces S_string [] t
      else if c = DQUOTE then Copied [c] # pieces S_normal [] (d # t)
      else Copied [c] # pieces S_string [] (d # t))"
| "pieces S_char r [c] = [Copied [c]]"
| "pieces S_char r (c # d # t) =
     (if c = BACKSLASH then Copied [c] # Copied [d] # pieces S_char [] t
      else if c = SQUOTE then Copied [c] # pieces S_normal [] (d # t)
      else Copied [c] # pieces S_char [] (d # t))"

fun runs_closed :: "piece list \<Rightarrow> bool" where
  "runs_closed [] = True"
| "runs_closed [p] = True"
| "runs_closed (Discarded r # q # ps) = (q = Copied [NL] \<and> runs_closed (q # ps))"
| "runs_closed (Copied t # q # ps) = runs_closed (q # ps)"

text \<open>
  The value of \<open>state\<close> at the head of the loop, iteration after iteration, and after
  the last one: the states the scanner is in on a text.
\<close>

fun trace :: "str \<Rightarrow> nat \<Rightarrow> scanner \<Rightarrow> state list" where
  "trace s 0 v = [state v]"
| "trace s (Suc k) v = state v # (if i v < length s then trace s k (body s v) else [])"

definition states :: "str \<Rightarrow> state list" where
  "states s = trace s (length s) init"

text \<open>
  Following the words of the specification (the result is split into lines on the
  newline character): the lines of a text when only the newline ends a line.
\<close>

fun lines_from :: "str \<Rightarrow> str \<Rightarrow> str list" where
  "lines_from cur [] = (if cur = [] then [] else [cur])"
| "lines_from cur (c # t) = (if c = NL then cur # lines_from [] t else lines_from (cur @ [c]) t)"

definition nl_lines :: "str \<Rightarrow> str list" where
  "nl_lines t = lines_from [] t"

text \<open>
  Following the words of the specification: a text unchanged except for removal of
  trailing whitespace on each line and the presence of exactly one trailing newline.
\<close>

definition spec_normal :: "str \<Rightarrow> str" where
  "spec_normal s =
     rev (dropWhile (\<lambda>c. c = NL) (rev (join [NL] (map rstrip (nl_lines s))))) @ [NL]"

text \<open>
  The scanner reading one character at a time. Besides the five states of the loop the
  automaton remembers a slash in code that may open a comment, a star in a block comment
  that may close it, and a backslash in a literal. \<open>clean q t\<close> says that reading
  \<open>t\<close> from \<open>q\<close> never leads into a line comment.
\<close>

datatype lex = L_code | L_slash | L_line | L_block | L_star | L_str | L_str_esc | L_chr | L_chr_esc

fun delta :: "lex \<Rightarrow> pychar \<Rightarrow> lex" where
  "delta L_code c =
     (if c = SLASH then L_slash else if c = DQUOTE then L_str
      else if c = SQUOTE then L_chr else L_code)"
| "delta L_slash c =
     (if c = SLASH then L_line else if c = STAR then L_block else if c = DQUOTE then L_str
      else if c = SQUOTE then L_chr else L_code)"
| "delta L_line c = (if c = NL then L_code else L_line)"
| "delta L_block c = (if c = STAR then L_star else L_block)"
| "delta L_star c = (if c = SLASH then L_code else if c = STAR then L_star else L_block)"
| "delta L_str c = (if c = BACKSLASH then L_str_esc else if c = DQUOTE then L_code else L_str)"
| "delta L_str_esc c = L_str"
| "delta L_chr c = (if c = BACKSLASH then L_chr_esc else if c = SQUOTE then L_code else L_chr)"
| "delta L_chr_esc c = L_chr"

fun run_lex :: "lex \<Rightarrow> str \<Rightarrow> lex" where
  "run_lex q [] = q"
| "run_lex q (c # t) = run_lex (delta q c) t"

fun clean :: "lex \<Rightarrow> str \<Rightarrow> bool" where
  "clean q [] = (q \<noteq> L_line)"
| "clean q (c # t) = (q \<noteq> L_line \<and> clean (delta q c) t)"

fun lex_of :: "state \<Rightarrow> lex" where
  "lex_of S_normal = L_code"
| "lex_of S_line_comment = L_line"
| "lex_of S_block_comment = L_block"
| "lex_of S_string = L_str"
| "lex_of S_char = L_chr"

text \<open>
  \<open>resumes q st t\<close>: the automaton in \<open>q\<close>, having read the output so far, agrees with
  the loop in state \<open>st\<close> about to read \<open>t\<close>.
\<close>

fun resumes :: "lex \<Rightarrow> state \<Rightarrow> str \<Rightarrow> bool" where
  "resumes q S_normal t =
     (q = L_code \<or> (q = L_slash \<and> (t = [] \<or> (hd t \<noteq> SLASH \<and> hd t \<noteq> STAR))))"
| "resumes q S_line_comment t = (q = L_code)"
| "resumes q S_block_comment t = (q = L_block \<or> (q = L_star \<and> (t = [] \<or> hd t \<noteq> SLASH)))"
| "resumes q S_string t = (q = L_str)"
| "resumes q S_char t = (q = L_chr)"

text \<open>The state of the automaton after a character that is special to no state.\<close>

fun base :: "lex \<Rightarrow> lex" where
  "base L_slash = L_code"
| "base L_star = L_block"
| "base L_str_esc = L_str"
| "base L_chr_esc = L_chr"
| "base q = q"

section \<open>The loop and its structural reading\<close>

lemma drop_cons_facts:
  assumes "drop n s = c # t"
  shows "n < length s" and "s ! n = c" and "drop (Suc n) s = t"
proof -
  show l: "n < length s" using assms by (cases "n < length s") auto
  from l have "drop n s = s ! n # drop (Suc n) s" by (simp add: Cons_nth_drop_Suc)
  with assms show "s ! n = c" and "drop (Suc n) s = t" by auto
qed

lemma startswith_cons:
  assumes "drop n s = c # t"
  shows "startswith s [a, b] n \<longleftrightarrow> c = a \<and> (\<exists>t'. t = b # t')"
  using assms by (cases t) (auto simp: startswith_def)

lemma body_le: "i v < length s \<Longrightarrow> i (body s v) \<le> length s"
proof -
  assume l: "i v < length s"
  have sw: "\<And>a b. startswith s [a, b] (i v) \<Longrightarrow> i v + 2 \<le> length s"
  proof -
    fix a b assume "startswith s [a, b] (i v)"
    then have "take 2 (drop (i v) s) = [a, b]" by (simp add: startswith_def numeral_2_eq_2)
    then have "length (take 2 (drop (i v) s)) = length [a, b]" by (rule arg_cong)
    then show "i v + 2 \<le> length s" by simp
  qed
  show ?thesis using l sw[of SLASH SLASH] sw[of SLASH STAR] sw[of STAR SLASH]
    by (auto simp: body_def Let_def split: state.split)
qed

lemma loop_scanL:
  "i v \<le> length s \<Longrightarrow>
   concat (out_chars (loop s v)) = concat (out_chars v) @ scanL (state v) (drop (i v) s)"
proof (induction s v rule: loop.induct)
  case (1 s v)
  show ?case
  proof (cases "i v < length s")
    case False
    with "1.prems" show ?thesis by (simp add: loop.simps)
  next
    case True
    then obtain c t where d: "drop (i v) s = c # t"
      by (metis Cons_nth_drop_Suc)
    note f = drop_cons_facts[OF d] startswith_cons[OF d]
    have ih: "concat (out_chars (loop s (body s v))) =
       concat (out_chars (body s v)) @ scanL (state (body s v)) (drop (i (body s v)) s)"
      using "1.IH"[OF True] body_le[OF True] by simp
    have lp: "loop s v = loop s (body s v)" using True by (subst loop.simps) simp
    show ?thesis
    proof (cases t)
      case Nil
      then have "Suc (i v) = length s" using f(3) True by (metis drop_eq_Nil2 Suc_leI le_antisym)
      then show ?thesis unfolding lp ih using d Nil f
        by (cases "state v") (simp_all add: body_def Let_def)
    next
      case (Cons e t')
      then have "Suc (i v) < length s" and "s ! Suc (i v) = e" and "drop (Suc (Suc (i v))) s = t'"
        using drop_cons_facts[of "Suc (i v)" s e t'] f(3) by simp_all
      then show ?thesis unfolding lp ih using d Cons f
        by (cases "state v") (simp_all add: body_def Let_def)
    qed
  qed
qed

lemma scan_scanL: "scan s = scanL S_normal s"
  using loop_scanL[of init s] by (simp add: scan_def init_def)

lemmas chars = SLASH_def STAR_def DQUOTE_def SQUOTE_def BACKSLASH_def NL_def CR_def

lemma run_numeral [simp]:
  "run s (numeral n) v = (if i v < length s then run s (pred_numeral n) (body s v) else v)"
  by (simp add: numeral_eq_Suc)

lemma body_step: "i (body s v) = i v + 1 \<or> i (body s v) = i v + 2"
  by (simp add: body_def Let_def split: state.split)

lemma loop_done: "length s \<le> i v \<Longrightarrow> loop s v = v"
  by (subst loop.simps) simp

lemma loop_body: "i v < length s \<Longrightarrow> loop s v = loop s (body s v)"
  by (subst loop.simps) simp

lemma run_loop: "length s - i v \<le> k \<Longrightarrow> run s k v = loop s v"
proof (induction k arbitrary: v)
  case 0
  then show ?case by (simp add: loop_done)
next
  case (Suc k)
  show ?case
  proof (cases "i v < length s")
    case True
    have "length s - i (body s v) \<le> k"
      using Suc.prems True body_advances[of v s] by arith
    then show ?thesis using True Suc.IH by (simp add: loop_body)
  next
    case False
    then show ?thesis by (simp add: loop_done)
  qed
qed

lemma loop_exit: "length s \<le> i (loop s v)"
proof (induction s v rule: loop.induct)
  case (1 s v)
  then show ?case by (cases "i v < length s") (simp_all add: loop_body loop_done)
qed

lemma run_mono: "i v \<le> i (run s k v)"
proof (induction k arbitrary: v)
  case 0
  show ?case by simp
next
  case (Suc k)
  show ?case using Suc.IH[of "body s v"] body_advances[of v s] by simp
qed

lemma run_done: "length s \<le> i v \<Longrightarrow> run s k v = v"
  by (cases k) simp_all

lemma run_add: "run s (j + k) v = run s k (run s j v)"
proof (induction j arbitrary: v)
  case 0
  show ?case by simp
next
  case (Suc j)
  show ?case using Suc.IH[of "body s v"] by (simp add: run_done)
qed

lemma line_comment_run:
  "state v = S_line_comment \<Longrightarrow> j \<le> length (takeWhile (\<lambda>c. c \<noteq> NL) (drop (i v) s)) \<Longrightarrow>
   run s j v = v\<lparr>i := i v + j\<rparr>"
proof (induction j arbitrary: v)
  case 0
  show ?case by simp
next
  case (Suc j)
  from Suc.prems(2) obtain c t where d: "drop (i v) s = c # t"
    by (cases "drop (i v) s") auto
  note f = drop_cons_facts[OF d]
  from Suc.prems(2) d have c: "c \<noteq> NL" and j: "j \<le> length (takeWhile (\<lambda>c. c \<noteq> NL) t)"
    by (auto split: if_splits)
  have b: "body s v = v\<lparr>i := i v + 1\<rparr>"
    using Suc.prems(1) f c by (simp add: body_def)
  have "run s j (body s v) = (body s v)\<lparr>i := i (body s v) + j\<rparr>"
    using Suc.prems(1) j f(3) by (intro Suc.IH) (simp_all add: b)
  then show ?case using f(1) by (simp add: b)
qed

lemma takeWhile_end:
  "x \<notin> set xs \<Longrightarrow> length (takeWhile (\<lambda>c. c \<noteq> x) xs) = length xs"
  by (induction xs) auto

lemma takeWhile_hit:
  "x \<in> set xs \<Longrightarrow> drop (length (takeWhile (\<lambda>c. c \<noteq> x) xs)) xs = x # drop (Suc (length (takeWhile (\<lambda>c. c \<noteq> x) xs))) xs"
  by (induction xs) auto

lemma pieces_all:
  "concat (map text_of (pieces st r t)) = (if st = S_line_comment then r else []) @ t"
  by (induction st r t rule: pieces.induct) auto

lemma pieces_copied:
  "concat (map text_of (filter is_copied (pieces st r t))) = scanL st t"
  by (induction st r t rule: pieces.induct) auto

lemma subseq_skip2: "subseq xs ys \<Longrightarrow> subseq xs (a # b # ys)"
  by (intro list_emb_Cons)

lemma slash_not_nl: "SLASH \<noteq> NL" "NL \<noteq> SLASH"
  by (simp_all add: chars)

lemma pieces_discarded:
  "st = S_line_comment \<longrightarrow> take 2 r = [SLASH, SLASH] \<and> NL \<notin> set r \<Longrightarrow> p \<in> set (pieces st r t) \<Longrightarrow> \<not> is_copied p \<Longrightarrow>
   take 2 (text_of p) = [SLASH, SLASH] \<and> NL \<notin> set (text_of p)"
proof (induction st r t rule: pieces.induct)
  case (2 r c t)
  show ?case
  proof (cases "c = NL")
    case True
    with 2 show ?thesis by (auto simp: slash_not_nl)
  next
    case False
    have "take 2 (r @ [c]) = [SLASH, SLASH]" using "2.prems"(1)
      by (cases r; cases "tl r") auto
    with False 2 show ?thesis by auto
  qed
qed (auto simp: slash_not_nl split: if_splits)

lemma runs_closed_Copied: "runs_closed ps \<Longrightarrow> runs_closed (Copied t # ps)"
  by (cases ps) auto

lemma pieces_closed: "runs_closed (pieces st r t)"
  by (induction st r t rule: pieces.induct) (auto simp: runs_closed_Copied)

lemma scanL_subseq: "subseq (scanL st t) t"
  by (induction st t rule: scanL.induct) (auto simp: subseq_skip2)

text \<open>Rewrite rules that evaluate the loop on a given text.\<close>

lemmas scan_eval = scan_def init_def loop.simps body_def startswith_def ascii_def chars

section \<open>Lines of the post-pass\<close>

lemma linebreak_NL [simp]: "is_linebreak NL"
  by (simp add: is_linebreak_def NL_def)

lemma linebreak_CR [simp]: "is_linebreak CR"
  by (simp add: is_linebreak_def CR_def)

lemma CR_not_NL [simp]: "CR \<noteq> NL" "NL \<noteq> CR"
  by (simp_all add: chars)

lemma linebreak_space: "is_linebreak c \<Longrightarrow> is_space c"
  by (auto simp: is_linebreak_def is_space_def)

lemma space_NL [simp]: "is_space NL"
  by (simp add: is_space_def NL_def)

lemma splitlines_from_clean:
  "list_all (\<lambda>c. \<not> is_linebreak c) cur \<Longrightarrow>
   list_all (list_all (\<lambda>c. \<not> is_linebreak c)) (splitlines_from cur t)"
  by (induction cur t rule: splitlines_from.induct) simp_all

lemma splitlines_clean: "l \<in> set (splitlines t) \<Longrightarrow> c \<in> set l \<Longrightarrow> \<not> is_linebreak c"
  using splitlines_from_clean[of "[]" t] by (auto simp: splitlines_def list_all_iff)

lemma count_le_lines: "count_list t NL \<le> length (splitlines_from cur t)"
  by (induction cur t rule: splitlines_from.induct) auto

lemma lines_count:
  "\<forall>c\<in>set t. is_linebreak c \<longrightarrow> c = NL \<Longrightarrow>
   length (splitlines_from cur t) =
     count_list t NL + (if t = [] then (if cur = [] then 0 else 1) else if last t = NL then 0 else 1)"
  by (induction cur t rule: splitlines_from.induct) auto

lemma splitlines_nl_only:
  "\<forall>c\<in>set t. is_linebreak c \<longrightarrow> c = NL \<Longrightarrow> splitlines_from cur t = lines_from cur t"
  by (induction cur t rule: splitlines_from.induct) auto

lemma set_rstrip: "set (rstrip l) \<subseteq> set l"
  using set_dropWhileD[of _ is_space "rev l"] by (auto simp: rstrip_def)

lemma rstrip_last: "rstrip l \<noteq> [] \<Longrightarrow> \<not> is_space (last (rstrip l))"
  using hd_dropWhile[of is_space "rev l"] by (simp add: rstrip_def last_rev)

lemma count_scanL: "count_list (scanL st t) NL = count_list t NL"
  by (induction st t rule: scanL.induct) (auto simp: chars)

lemma set_scanL: "set (scanL st t) \<subseteq> set t"
  using scanL_subseq[of st t] list_emb_set[of "(=)" "scanL st t" t] by auto

lemma join_lines: "ls \<noteq> [] \<Longrightarrow> join [NL] ls @ [NL] = concat (map (\<lambda>l. l @ [NL]) ls)"
  by (induction "[NL]" ls rule: join.induct) auto

lemma post_lines:
  "post t = (if splitlines t = [] then [NL]
             else concat (map (\<lambda>l. rstrip l @ [NL]) (splitlines t)))"
  using join_lines[of "map rstrip (splitlines t)"] by (simp add: post_def comp_def)

lemma count_concat_lines:
  "count_list (concat (map (\<lambda>l. f l @ [NL]) ls)) NL
     = length ls + count_list (concat (map f ls)) NL"
  by (induction ls) auto

lemma count_concat_none:
  "\<forall>l\<in>set ls. NL \<notin> set (f l) \<Longrightarrow> count_list (concat (map f ls)) NL = 0"
  by (induction ls) (auto simp: count_list_0_iff)

lemma count_post:
  "count_list (post t) NL = (if splitlines t = [] then 1 else length (splitlines t))"
proof -
  have "NL \<notin> set (rstrip l)" if "l \<in> set (splitlines t)" for l
    using splitlines_clean[OF that, of NL] set_rstrip[of l] by auto
  then have "count_list (concat (map rstrip (splitlines t))) NL = 0"
    by (intro count_concat_none) simp
  then show ?thesis
    by (simp add: post_lines count_concat_lines[of rstrip])
qed

lemma post_last: "post t \<noteq> [] \<and> last (post t) = NL"
  by (simp add: post_def)

lemma suffix_two:
  "suffix [a, b] (xs @ [c]) \<longleftrightarrow> b = c \<and> xs \<noteq> [] \<and> last xs = a"
proof -
  have "suffix ([a] @ [b]) (xs @ [c]) \<longleftrightarrow> b = c \<and> suffix [a] xs"
    by (simp only: snoc_suffix_snoc)
  moreover have "suffix [a] xs \<longleftrightarrow> xs \<noteq> [] \<and> last xs = a"
    by (cases xs rule: rev_cases) (auto simp: suffix_def)
  ultimately show ?thesis by simp
qed

lemma post_double_newline:
  "suffix [NL, NL] (post t) \<longleftrightarrow> 2 \<le> length (splitlines t) \<and> rstrip (last (splitlines t)) = []"
proof (cases "splitlines t" rule: rev_cases)
  case Nil
  then show ?thesis by (simp add: post_lines suffix_def)
next
  case (snoc ls l)
  have nl: "rstrip l \<noteq> [] \<Longrightarrow> last (rstrip l) \<noteq> NL"
    using rstrip_last[of l] by auto
  have p: "post t = (concat (map (\<lambda>l. rstrip l @ [NL]) ls) @ rstrip l) @ [NL]"
    using snoc by (simp add: post_lines)
  show ?thesis
  proof (cases ls rule: rev_cases)
    case Nil
    then show ?thesis unfolding p suffix_two using snoc nl by auto
  next
    case (snoc ls' l')
    then show ?thesis unfolding p suffix_two using \<open>splitlines t = ls @ [l]\<close> nl by auto
  qed
qed

lemma splitlines_from_Nil: "splitlines_from cur t = [] \<longleftrightarrow> cur = [] \<and> t = []"
  by (induction cur t rule: splitlines_from.induct) auto

lemma newline_count:
  "count_list s NL \<le> count_list (strip_comments s) NL
   \<and> ((\<forall>c\<in>set s. is_linebreak c \<longrightarrow> c = NL) \<longrightarrow>
        count_list (strip_comments s) NL =
          count_list s NL + (if scan s = [] \<or> last (scan s) \<noteq> NL then 1 else 0))"
proof -
  let ?u = "scan s"
  have c: "count_list ?u NL = count_list s NL" by (simp add: scan_scanL count_scanL)
  have 1: "count_list s NL \<le> count_list (strip_comments s) NL"
    using count_le_lines[of ?u "[]"] c
    by (cases "splitlines_from [] (scan s)") (simp_all add: strip_comments_def count_post splitlines_def)
  have 2: "count_list (strip_comments s) NL =
          count_list s NL + (if ?u = [] \<or> last ?u \<noteq> NL then 1 else 0)"
    if "\<forall>c\<in>set s. is_linebreak c \<longrightarrow> c = NL"
  proof -
    have "\<forall>c\<in>set ?u. is_linebreak c \<longrightarrow> c = NL"
      using that set_scanL[of S_normal s] by (auto simp: scan_scanL)
    then have l: "length (splitlines_from [] ?u) =
        count_list s NL + (if ?u = [] then 0 else if last ?u = NL then 0 else 1)"
      using lines_count[of ?u "[]"] c by simp
    show ?thesis
    proof (cases "?u = []")
      case True
      then have "count_list s NL = 0" using c by simp
      with True show ?thesis
        by (simp add: strip_comments_def count_post splitlines_def)
    next
      case False
      then have "splitlines_from [] ?u \<noteq> []" by (simp add: splitlines_from_Nil)
      with False l show ?thesis
        by (simp add: strip_comments_def count_post splitlines_def)
    qed
  qed
  from 1 2 show ?thesis by blast
qed

text \<open>Rewrite rules that evaluate the post-pass on a given text.\<close>

lemmas post_eval = strip_comments_def post_def splitlines_def is_linebreak_def rstrip_def is_space_def

section \<open>Termination of the scan loop\<close>

text \<open>
  C10: every iteration of the loop advances the index by exactly 1 or 2, in every state
  and on every branch, and never beyond the length of the input; the loop therefore
  ends after at most \<open>length s - i\<close> iterations, with the index at the end of the input.
\<close>

theorem scan_loop_terminates:
  "(i v < length s \<longrightarrow> (i (body s v) = i v + 1 \<or> i (body s v) = i v + 2) \<and> i (body s v) \<le> length s)
   \<and> run s (length s - i v) v = loop s v
   \<and> length s \<le> i (loop s v)"
  using body_step[of s v] body_le[of v s] run_loop[of s v "length s - i v"] loop_exit[of s v]
  by simp

theorem scan_loop_terminates_witness:
  "i init < length (ascii ''a//b'')
   \<and> i (body (ascii ''a//b'') init) = i init + 1
   \<and> i (body (ascii ''a//b'') (body (ascii ''a//b'') init)) = i (body (ascii ''a//b'') init) + 2
   \<and> run (ascii ''a//b'') 4 init = loop (ascii ''a//b'') init
   \<and> i (loop (ascii ''a//b'') init) = 4"
  using scan_loop_terminates[of init "ascii ''a//b''"]
  by (simp add: init_def ascii_def body_def startswith_def chars loop.simps)

section \<open>Escapes in string and character literals\<close>

text \<open>
  C4: in the string and char states, a backslash that has a next character is emitted
  together with that character, the index moves past both and the state stays what it
  was, whatever the second character is (a quote included); no later iteration reads
  the second character again.
\<close>

theorem escape_pair_atomic:
  assumes "state v = S_string \<or> state v = S_char"
    and "i v + 1 < length s"
    and "s ! i v = BACKSLASH"
  shows "body s v = v\<lparr>out_chars := out_chars v @ [[BACKSLASH], [s ! (i v + 1)]], i := i v + 2\<rparr>
       \<and> state (body s v) = state v
       \<and> (\<forall>k. i v + 2 \<le> i (run s (Suc k) v))"
proof -
  have b: "body s v = v\<lparr>out_chars := out_chars v @ [[BACKSLASH], [s ! (i v + 1)]], i := i v + 2\<rparr>"
    using assms by (auto simp: body_def)
  have "i v + 2 \<le> i (run s (Suc k) v)" for k
    using run_mono[of "body s v" s k] assms(2) by (simp add: b)
  with b show ?thesis by simp
qed

theorem escape_pair_atomic_witness:
  \<open>body (ascii ''x = "a'' @ [BACKSLASH] @ ascii ''"//b"'') \<lparr>state = S_string, i = 6, out_chars = [ascii ''x = "a'']\<rparr>
     = \<lparr>state = S_string, i = 8, out_chars = [ascii ''x = "a'', [BACKSLASH], [DQUOTE]]\<rparr>\<close>
  using escape_pair_atomic[of \<open>\<lparr>state = S_string, i = 6, out_chars = [ascii ''x = "a'']\<rparr>\<close> \<open>ascii ''x = "a'' @ [BACKSLASH] @ ascii ''"//b"''\<close>]
  by (simp add: ascii_def chars)

section \<open>Line comments\<close>

text \<open>
  C1: in the normal state with \<open>//\<close> ahead, the iteration that reads the marker and the
  iterations that read the following characters other than the newline leave the output
  as it was; the iteration that reads the next newline appends that newline and returns
  to the normal state. Without a newline in the rest of the input the loop ends in the
  line comment state with the output unchanged.
\<close>

theorem line_comment_discarded:
  assumes "state v = S_normal" and "startswith s [SLASH, SLASH] (i v)"
  shows "(\<forall>j \<le> length (takeWhile (\<lambda>c. c \<noteq> NL) (drop (i v + 2) s)).
            run s (Suc j) v = v\<lparr>state := S_line_comment, i := i v + 2 + j\<rparr>)
       \<and> (NL \<in> set (drop (i v + 2) s) \<longrightarrow>
            run s (length (takeWhile (\<lambda>c. c \<noteq> NL) (drop (i v + 2) s)) + 2) v =
              v\<lparr>state := S_normal,
                i := i v + 2 + length (takeWhile (\<lambda>c. c \<noteq> NL) (drop (i v + 2) s)) + 1,
                out_chars := out_chars v @ [[NL]]\<rparr>)
       \<and> (NL \<notin> set (drop (i v + 2) s) \<longrightarrow>
            loop s v = v\<lparr>state := S_line_comment, i := length s\<rparr>)"
proof -
  define n where "n = length (takeWhile (\<lambda>c. c \<noteq> NL) (drop (i v + 2) s))"
  define w where "w = v\<lparr>state := S_line_comment, i := i v + 2\<rparr>"
  have l: "i v + 2 \<le> length s"
  proof -
    from assms(2) have "take 2 (drop (i v) s) = [SLASH, SLASH]"
      by (simp add: startswith_def numeral_2_eq_2)
    then have "length (take 2 (drop (i v) s)) = length [SLASH, SLASH]" by (rule arg_cong)
    then show ?thesis by simp
  qed
  have b: "body s v = w" using assms by (simp add: body_def w_def)
  have r: "run s (Suc j) v = run s j w" for j using l b by simp
  have w: "state w = S_line_comment" "i w = i v + 2" "out_chars w = out_chars v"
    by (simp_all add: w_def)
  have run_w: "run s j w = w\<lparr>i := i w + j\<rparr>" if "j \<le> n" for j
    using that line_comment_run[of w j s] w by (simp add: n_def)
  have 1: "\<forall>j \<le> n. run s (Suc j) v = v\<lparr>state := S_line_comment, i := i v + 2 + j\<rparr>"
    using run_w r by (simp add: w_def)
  have 2: "run s (n + 2) v = v\<lparr>state := S_normal, i := i v + 2 + n + 1, out_chars := out_chars v @ [[NL]]\<rparr>"
    if "NL \<in> set (drop (i v + 2) s)"
  proof -
    define u where "u = w\<lparr>i := i w + n\<rparr>"
    have "drop n (drop (i v + 2) s) = NL # drop (Suc n) (drop (i v + 2) s)"
      using takeWhile_hit[OF that] by (simp add: n_def)
    then have d: "drop (i u) s = NL # drop (Suc (i u)) s"
      by (simp add: u_def w add.commute)
    note f = drop_cons_facts[OF d]
    have bu: "body s u = u\<lparr>out_chars := out_chars u @ [[NL]], state := S_normal, i := i u + 1\<rparr>"
      using f w by (simp add: body_def u_def)
    have "run s (n + 2) v = run s (n + 1) w" using r[of "Suc n"] by simp
    also have "\<dots> = run s 1 (run s n w)" by (rule run_add)
    also have "\<dots> = run s 1 u" using run_w[of n] by (simp add: u_def)
    also have "\<dots> = body s u" using f(1) by simp
    finally have e: "run s (n + 2) v = body s u" .
    have t: "body s u = v\<lparr>state := S_normal, i := i v + 2 + n + 1, out_chars := out_chars v @ [[NL]]\<rparr>"
      unfolding bu by (simp add: u_def w_def)
    show ?thesis by (simp only: e t)
  qed
  have 3: "loop s v = v\<lparr>state := S_line_comment, i := length s\<rparr>"
    if "NL \<notin> set (drop (i v + 2) s)"
  proof -
    have "n = length s - (i v + 2)" using takeWhile_end[OF that] by (simp add: n_def)
    then have "run s n w = w\<lparr>i := length s\<rparr>" using run_w[of n] l w by simp
    moreover have "run s n w = loop s w" using \<open>n = length s - (i v + 2)\<close> w
      by (intro run_loop) simp
    moreover have "loop s v = loop s w" using l b loop_body[of v s] by simp
    ultimately show ?thesis by (simp add: w_def)
  qed
  from 1 2 3 show ?thesis unfolding n_def by blast
qed

theorem line_comment_discarded_witness:
  "state \<lparr>state = S_normal, i = 1, out_chars = [[97]]\<rparr> = S_normal
   \<and> startswith (ascii ''a//b\<newline>c'') [SLASH, SLASH] 1
   \<and> run (ascii ''a//b\<newline>c'') 1 \<lparr>state = S_normal, i = 1, out_chars = [[97]]\<rparr>
        = \<lparr>state = S_line_comment, i = 3, out_chars = [[97]]\<rparr>
   \<and> run (ascii ''a//b\<newline>c'') 2 \<lparr>state = S_normal, i = 1, out_chars = [[97]]\<rparr>
        = \<lparr>state = S_line_comment, i = 4, out_chars = [[97]]\<rparr>
   \<and> run (ascii ''a//b\<newline>c'') 3 \<lparr>state = S_normal, i = 1, out_chars = [[97]]\<rparr>
        = \<lparr>state = S_normal, i = 5, out_chars = [[97], [NL]]\<rparr>
   \<and> loop (ascii ''a//b'') \<lparr>state = S_normal, i = 1, out_chars = [[97]]\<rparr>
        = \<lparr>state = S_line_comment, i = 4, out_chars = [[97]]\<rparr>"
  using line_comment_discarded[of "\<lparr>state = S_normal, i = 1, out_chars = [[97]]\<rparr>" "ascii ''a//b\<newline>c''"]
    line_comment_discarded[of "\<lparr>state = S_normal, i = 1, out_chars = [[97]]\<rparr>" "ascii ''a//b''"]
  by (simp add: scan_eval)

section \<open>What the scan pass deletes\<close>

text \<open>
  C8: the input is the concatenation of its pieces, the output of the scan pass is the
  concatenation of the copied pieces in the same order, every discarded piece is a line
  comment (it begins with \<open>//\<close>, contains no newline and is followed by a newline or
  by the end of input), and the output is a subsequence of the input.
\<close>

theorem scan_deletes_line_comments:
  "concat (map text_of (pieces S_normal [] s)) = s
   \<and> concat (map text_of (filter is_copied (pieces S_normal [] s))) = scan s
   \<and> (\<forall>p \<in> set (pieces S_normal [] s).
         \<not> is_copied p \<longrightarrow> take 2 (text_of p) = [SLASH, SLASH] \<and> NL \<notin> set (text_of p))
   \<and> runs_closed (pieces S_normal [] s)
   \<and> subseq (scan s) s"
  using pieces_all[of S_normal "[]" s] pieces_copied[of S_normal "[]" s]
    pieces_discarded[of S_normal "[]" _ s] pieces_closed[of S_normal "[]" s]
    scanL_subseq[of S_normal s]
  by (simp add: scan_scanL)

theorem scan_deletes_line_comments_witness:
  "pieces S_normal [] (ascii ''a//b\<newline>c//'')
     = [Copied (ascii ''a''), Discarded (ascii ''//b''), Copied [NL], Copied (ascii ''c''),
        Discarded (ascii ''//'')]
   \<and> scan (ascii ''a//b\<newline>c//'') = ascii ''a\<newline>c''
   \<and> take 2 (ascii ''//b'') = [SLASH, SLASH] \<and> NL \<notin> set (ascii ''//b'')"
  using scan_deletes_line_comments[of "ascii ''a//b\<newline>c//''"]
  by (simp add: scan_eval)

section \<open>The driver's early exits\<close>




text \<open>A run of the driver that reaches the end, on the toy platform.\<close>

lemma main_success_example:
  "main toy [''strip_comments.py'', ''m.rs'']
      \<lparr>files = [''m.rs'' \<mapsto> File ''x; // c''], printed = []\<rparr>
   = (Exit 0, \<lparr>files = [''m.rs'' \<mapsto> File (encode_utf8 toy (ascii ''x;\<newline>'')), ''m.rs.bak'' \<mapsto> File ''x; // c''],
        printed = [''Creating backup: m.rs.bak'', ''Writing cleaned file: m.rs'', ''Done.'']\<rparr>)"
  by (simp add: main_def print_def toy_def Let_def strip_comments_def post_def splitlines_def
      is_linebreak_def rstrip_def is_space_def scan_eval fun_upd_twist)

section \<open>The end of the output\<close>

text \<open>
  C6, as the code has it: the final output is never empty and always ends with a
  newline. For a text in which the newline is the only line boundary character, the
  output ends with two newlines exactly when the scanned text, split into lines at the
  newline, has at least two lines and its last line holds nothing but whitespace; so the
  output ends with exactly one newline whenever the last line of the scanned text has a
  character that is not whitespace, or the scanned text has at most one line.
\<close>

theorem trailing_newline:
  "strip_comments s \<noteq> [] \<and> last (strip_comments s) = NL
   \<and> ((\<forall>c\<in>set s. is_linebreak c \<longrightarrow> c = NL) \<longrightarrow>
        (suffix [NL, NL] (strip_comments s) \<longleftrightarrow>
           2 \<le> length (nl_lines (scan s)) \<and> rstrip (last (nl_lines (scan s))) = []))"
proof -
  have "splitlines (scan s) = nl_lines (scan s)"
    if a: "\<forall>c\<in>set s. is_linebreak c \<longrightarrow> c = NL"
  proof -
    have "\<forall>c\<in>set (scan s). is_linebreak c \<longrightarrow> c = NL"
      using a set_scanL[of S_normal s] by (auto simp: scan_scanL)
    then show ?thesis
      using splitlines_nl_only[of "scan s" "[]"] by (simp add: splitlines_def nl_lines_def)
  qed
  then show ?thesis
    using post_last[of "scan s"] post_double_newline[of "scan s"]
    by (auto simp: strip_comments_def)
qed

theorem trailing_newline_witness:
  "strip_comments (ascii ''a // c'') = ascii ''a\<newline>''
   \<and> \<not> suffix [NL, NL] (strip_comments (ascii ''a // c''))
   \<and> strip_comments (ascii ''a\<newline> // c'') = ascii ''a\<newline>\<newline>''
   \<and> nl_lines (scan (ascii ''a\<newline> // c'')) = [ascii ''a'', ascii '' '']
   \<and> suffix [NL, NL] (strip_comments (ascii ''a\<newline> // c''))"
  using trailing_newline[of "ascii ''a // c''"] trailing_newline[of "ascii ''a\<newline> // c''"]
  by (simp add: scan_eval post_eval nl_lines_def suffix_def)

text \<open>
  C6 as stated fails: an input that ends in a blank line keeps it, and the output ends
  with two newlines.
\<close>

theorem trailing_newline_counterexample:
  "suffix [NL, NL] (strip_comments (ascii ''a\<newline>\<newline>''))"
  by (simp add: scan_eval post_eval suffix_def)

section \<open>Newlines and line boundaries\<close>

text \<open>
  C5 at the input made of \<open>a\<close>, a form feed, \<open>b\<close>, a form feed and \<open>c\<close> (no
  newline): \<open>splitlines\<close> breaks at the form feeds and the lines are joined with
  newlines, so the output has three newlines where the input has none. For a text whose
  only line boundary character is the newline, lemma \<open>newline_count\<close> gives the count
  of the input or one more.
\<close>

theorem form_feed_becomes_newline:
  "count_list [97, 12, 98, 12, 99] NL = 0
   \<and> strip_comments [97, 12, 98, 12, 99] = [97, 10, 98, 10, 99, 10]
   \<and> count_list (strip_comments [97, 12, 98, 12, 99]) NL = 3"
  by (simp add: scan_eval post_eval)

section \<open>Literals and block comments in the final output\<close>

text \<open>
  C2 at a string literal that runs over two lines and has a space before the line break:
  the scan pass copies the literal, \<open>//\<close> included, and the post-pass then removes the
  space inside it, so the final output does not contain the literal.
\<close>

theorem string_literal_trimmed:
  \<open>scan (ascii ''s = "a// '' @ [NL] @ ascii ''b";'') = ascii ''s = "a// '' @ [NL] @ ascii ''b";''
   \<and> strip_comments (ascii ''s = "a// '' @ [NL] @ ascii ''b";'')
       = ascii ''s = "a//'' @ [NL] @ ascii ''b";'' @ [NL]
   \<and> \<not> sublist (ascii ''"a// '' @ [NL] @ ascii ''b"'')
         (strip_comments (ascii ''s = "a// '' @ [NL] @ ascii ''b";''))\<close>
  by (simp add: scan_eval post_eval sublist_code)

text \<open>
  C3 at a block comment that runs over two lines and has a space before the line break:
  the scan pass copies the comment, and the post-pass removes the space inside it, so
  the final output does not contain the comment as it was.
\<close>

theorem block_comment_trimmed:
  "scan (ascii ''/* a // '' @ [NL] @ ascii '' b */'') = ascii ''/* a // '' @ [NL] @ ascii '' b */''
   \<and> strip_comments (ascii ''/* a // '' @ [NL] @ ascii '' b */'')
       = ascii ''/* a //'' @ [NL] @ ascii '' b */'' @ [NL]
   \<and> \<not> sublist (ascii ''/* a // '' @ [NL] @ ascii '' b */'')
         (strip_comments (ascii ''/* a // '' @ [NL] @ ascii '' b */''))"
  by (simp add: scan_eval post_eval sublist_code)

section \<open>Texts without line comments, and applying the tool twice\<close>

subsection \<open>Where the state is never the line comment state, the loop copies\<close>

lemma trace_head: "state v \<in> set (trace s k v)"
  by (cases k) simp_all

lemma body_copies:
  assumes "i v < length s" and "state v \<noteq> S_line_comment"
    and "state (body s v) \<noteq> S_line_comment"
  shows "concat (out_chars (body s v))
         = concat (out_chars v) @ take (i (body s v) - i v) (drop (i v) s)"
proof -
  from assms(1) obtain c t where d: "drop (i v) s = c # t"
    by (metis Cons_nth_drop_Suc)
  note f = drop_cons_facts[OF d] startswith_cons[OF d]
  show ?thesis
  proof (cases t)
    case Nil
    then have "Suc (i v) = length s" using f(3) assms(1) by (metis drop_eq_Nil2 Suc_leI le_antisym)
    then show ?thesis using d Nil f assms(2)
      by (cases "state v") (simp_all add: body_def Let_def)
  next
    case (Cons e t')
    then have "Suc (i v) < length s" and "s ! Suc (i v) = e"
      using drop_cons_facts[of "Suc (i v)" s e t'] f(3) by simp_all
    then show ?thesis using d Cons f assms(2,3)
      by (cases "state v") (auto simp: body_def Let_def split: if_splits)
  qed
qed

lemma loop_copies:
  "S_line_comment \<notin> set (trace s k v) \<Longrightarrow> length s - i v \<le> k \<Longrightarrow> i v \<le> length s \<Longrightarrow>
   concat (out_chars (loop s v)) = concat (out_chars v) @ drop (i v) s"
proof (induction k arbitrary: v)
  case 0
  then show ?case by (simp add: loop_done)
next
  case (Suc k)
  show ?case
  proof (cases "i v < length s")
    case False
    with Suc.prems show ?thesis by (simp add: loop_done)
  next
    case True
    let ?w = "body s v"
    have t: "S_line_comment \<notin> set (trace s k ?w)" and sv: "state v \<noteq> S_line_comment"
      using Suc.prems(1) True by auto
    then have sw: "state ?w \<noteq> S_line_comment" using trace_head[of ?w s k] by auto
    have adv: "i v < i ?w" by (rule body_advances)
    have le: "i ?w \<le> length s" by (rule body_le[OF True])
    have "concat (out_chars (loop s ?w)) = concat (out_chars ?w) @ drop (i ?w) s"
      using t Suc.prems(2) adv le by (intro Suc.IH) auto
    moreover have "concat (out_chars ?w) = concat (out_chars v) @ take (i ?w - i v) (drop (i v) s)"
      by (rule body_copies[OF True sv sw])
    moreover have "take (i ?w - i v) (drop (i v) s) @ drop (i ?w) s = drop (i v) s"
    proof -
      have "drop (i ?w) s = drop (i ?w - i v) (drop (i v) s)" using adv by simp
      then show ?thesis by (simp only: append_take_drop_id)
    qed
    ultimately show ?thesis using True by (simp add: loop_body)
  qed
qed

lemma no_comment_scan: "S_line_comment \<notin> set (states s) \<Longrightarrow> scan s = s"
  using loop_copies[of s "length s" init] by (simp add: states_def scan_def init_def)

text \<open>
  Over any stretch of iterations on which the state is never the line comment state, the
  output grows by exactly the characters read: string literals, character literals and
  block comments leave the scan pass as they entered it.
\<close>

lemma run_copies:
  "S_line_comment \<notin> set (trace s k v) \<Longrightarrow> i v \<le> length s \<Longrightarrow>
   concat (out_chars (run s k v))
     = concat (out_chars v) @ take (i (run s k v) - i v) (drop (i v) s)"
proof (induction k arbitrary: v)
  case 0
  then show ?case by simp
next
  case (Suc k)
  show ?case
  proof (cases "i v < length s")
    case False
    then show ?thesis by simp
  next
    case True
    let ?w = "body s v"
    have t: "S_line_comment \<notin> set (trace s k ?w)" and sv: "state v \<noteq> S_line_comment"
      using Suc.prems(1) True by auto
    then have sw: "state ?w \<noteq> S_line_comment" using trace_head[of ?w s k] by auto
    have adv: "i v < i ?w" by (rule body_advances)
    have le: "i ?w \<le> length s" by (rule body_le[OF True])
    have m: "i ?w \<le> i (run s k ?w)" by (rule run_mono)
    have 1: "concat (out_chars (run s k ?w))
        = concat (out_chars ?w) @ take (i (run s k ?w) - i ?w) (drop (i ?w) s)"
      using t le by (rule Suc.IH)
    have 2: "concat (out_chars ?w) = concat (out_chars v) @ take (i ?w - i v) (drop (i v) s)"
      by (rule body_copies[OF True sv sw])
    have 3: "take (i ?w - i v) (drop (i v) s) @ take (i (run s k ?w) - i ?w) (drop (i ?w) s)
        = take (i (run s k ?w) - i v) (drop (i v) s)"
    proof -
      have "drop (i ?w) s = drop (i ?w - i v) (drop (i v) s)" using adv by simp
      moreover have "i (run s k ?w) - i v = (i ?w - i v) + (i (run s k ?w) - i ?w)"
        using adv m by simp
      ultimately show ?thesis by (simp only: take_add)
    qed
    show ?thesis using True 1 2 3 by simp
  qed
qed

subsection \<open>The output of the scan pass holds no line comment\<close>

lemma chars_distinct [simp]:
  "SLASH \<noteq> STAR" "STAR \<noteq> SLASH" "SLASH \<noteq> DQUOTE" "DQUOTE \<noteq> SLASH" "SLASH \<noteq> SQUOTE"
  "SQUOTE \<noteq> SLASH" "STAR \<noteq> DQUOTE" "DQUOTE \<noteq> STAR" "STAR \<noteq> SQUOTE" "SQUOTE \<noteq> STAR"
  "DQUOTE \<noteq> SQUOTE" "SQUOTE \<noteq> DQUOTE" "BACKSLASH \<noteq> DQUOTE" "DQUOTE \<noteq> BACKSLASH"
  "BACKSLASH \<noteq> SQUOTE" "SQUOTE \<noteq> BACKSLASH" "NL \<noteq> SLASH" "NL \<noteq> STAR" "NL \<noteq> DQUOTE"
  "NL \<noteq> SQUOTE" "NL \<noteq> BACKSLASH" "BACKSLASH \<noteq> SLASH" "BACKSLASH \<noteq> STAR"
  by (simp_all add: chars)

lemma clean_start: "clean q t \<Longrightarrow> q \<noteq> L_line"
  by (cases t) simp_all

lemma clean_line [simp]: "\<not> clean L_line t"
  using clean_start by blast

lemma clean_scanL_id: "clean (lex_of st) t \<Longrightarrow> scanL st t = t"
  by (induction st t rule: scanL.induct) (auto split: if_splits)

lemma scanL_clean: "resumes q st t \<Longrightarrow> clean q (scanL st t)"
proof (induction st t arbitrary: q rule: scanL.induct)
  case (1 st)
  then show ?case by (cases st) auto
next
  case (2 c)
  then show ?case by (auto split: if_splits)
next
  case (3 c d t)
  from "3.prems" have q: "q = L_code \<or> (q = L_slash \<and> c \<noteq> SLASH \<and> c \<noteq> STAR)" by simp
  consider (line) "c = SLASH" "d = SLASH" | (block) "c = SLASH" "d = STAR"
    | (str) "c = DQUOTE" | (chr) "c = SQUOTE"
    | (slash) "c = SLASH" "d \<noteq> SLASH" "d \<noteq> STAR"
    | (other) "c \<noteq> SLASH" "c \<noteq> DQUOTE" "c \<noteq> SQUOTE"
    by blast
  then show ?case
  proof cases
    case line
    then show ?thesis using q "3.IH"(1)[of L_code] by simp
  next
    case block
    then show ?thesis using q "3.IH"(2)[of L_block] by simp
  next
    case str
    then show ?thesis using q "3.IH"(3)[of L_str] by auto
  next
    case chr
    then show ?thesis using q "3.IH"(4)[of L_chr] by auto
  next
    case slash
    then show ?thesis using q "3.IH"(5)[of L_slash] by simp
  next
    case other
    then show ?thesis using q "3.IH"(5)[of L_code] by auto
  qed
next
  case (4 c t)
  then show ?case by (auto split: if_splits)
next
  case (5 c)
  then show ?case by (auto split: if_splits)
next
  case (6 c d t)
  from "6.prems" have q: "q = L_block \<or> (q = L_star \<and> c \<noteq> SLASH)" by simp
  consider (close) "c = STAR" "d = SLASH" | (star) "c = STAR" "d \<noteq> SLASH" | (other) "c \<noteq> STAR"
    by blast
  then show ?case
  proof cases
    case close
    then show ?thesis using q "6.IH"(1)[of L_code] by auto
  next
    case star
    then show ?thesis using q "6.IH"(2)[of L_star] by auto
  next
    case other
    then show ?thesis using q "6.IH"(2)[of L_block] by auto
  qed
next
  case (7 c)
  then show ?case by (auto split: if_splits)
next
  case (8 c d t)
  then show ?case by (auto split: if_splits)
next
  case (9 c)
  then show ?case by (auto split: if_splits)
next
  case (10 c d t)
  then show ?case by (auto split: if_splits)
qed

lemma scan_clean: "clean L_code (scan s)"
  using scanL_clean[of L_code S_normal s] by (simp add: scan_scanL)

subsection \<open>The post-pass opens no line comment\<close>

lemma space_plain:
  "is_space c \<Longrightarrow> c \<noteq> SLASH \<and> c \<noteq> STAR \<and> c \<noteq> DQUOTE \<and> c \<noteq> SQUOTE \<and> c \<noteq> BACKSLASH"
  unfolding is_space_def chars by arith

lemma delta_space: "is_space c \<Longrightarrow> q \<noteq> L_line \<Longrightarrow> delta q c = base q"
  using space_plain[of c] by (cases q) simp_all

lemma base_simps2 [simp]: "base (base q) = base q" "(base q = L_line) = (q = L_line)"
  by (cases q; simp)+

lemma clean_append: "clean q (xs @ ys) \<longleftrightarrow> clean q xs \<and> clean (run_lex q xs) ys"
proof (induction xs arbitrary: q)
  case Nil
  show ?case using clean_start[of q ys] by auto
next
  case (Cons x xs)
  then show ?case by simp
qed

lemma run_lex_append: "run_lex q (xs @ ys) = run_lex (run_lex q xs) ys"
  by (induction xs arbitrary: q) simp_all

lemma clean_end: "clean q xs \<Longrightarrow> run_lex q xs \<noteq> L_line"
  by (induction xs arbitrary: q) simp_all

lemma spaces_run:
  "list_all is_space w \<Longrightarrow> w \<noteq> [] \<Longrightarrow> q \<noteq> L_line \<Longrightarrow> run_lex q w = base q \<and> clean q w"
proof (induction w arbitrary: q)
  case Nil
  then show ?case by simp
next
  case (Cons c w)
  then have d: "delta q c = base q" by (simp add: delta_space)
  show ?case
  proof (cases w)
    case Nil
    with d Cons.prems show ?thesis by simp
  next
    case (Cons e w')
    then have "run_lex (base q) w = base (base q) \<and> clean (base q) w"
      using Cons.prems Cons.IH[of "base q"] \<open>list_all is_space (c # w)\<close> by simp
    with d Cons.prems show ?thesis by simp
  qed
qed

lemma rstrip_split: "\<exists>w. l = rstrip l @ w \<and> list_all is_space w"
proof -
  have "rev l = takeWhile is_space (rev l) @ dropWhile is_space (rev l)" by simp
  then have "l = rev (dropWhile is_space (rev l)) @ rev (takeWhile is_space (rev l))"
    by (metis rev_append rev_rev_ident)
  moreover have "list_all is_space (rev (takeWhile is_space (rev l)))"
    by (simp add: list_all_iff) (meson set_takeWhileD)
  ultimately show ?thesis unfolding rstrip_def by blast
qed

lemma line_step:
  assumes "clean q l" and "list_all is_space w" and "w \<noteq> []"
  shows "run_lex q (rstrip l @ [NL]) = run_lex q (l @ w) \<and> clean q (rstrip l @ [NL])"
proof -
  obtain sp where l: "l = rstrip l @ sp" and sp: "list_all is_space sp"
    using rstrip_split by blast
  let ?r = "run_lex q (rstrip l)"
  have cr: "clean q (rstrip l)" using assms(1) l clean_append[of q "rstrip l" sp] by metis
  then have r: "?r \<noteq> L_line" by (rule clean_end)
  have "run_lex ?r (sp @ w) = base ?r"
    using spaces_run[of "sp @ w" ?r] sp assms(2,3) r by simp
  then have 1: "run_lex q (l @ w) = base ?r"
    using l run_lex_append[of q "rstrip l" "sp @ w"] by (metis append_assoc)
  have 2: "run_lex ?r [NL] = base ?r \<and> clean ?r [NL]"
    using spaces_run[of "[NL]" ?r] r by simp
  show ?thesis using 1 2 cr by (simp add: run_lex_append clean_append)
qed

lemma line_last: "clean q l \<Longrightarrow> clean q (rstrip l @ [NL])"
  using line_step[of q l "[NL]"] by simp

lemma lines_clean:
  "clean q (cur @ t) \<Longrightarrow>
   clean q (concat (map (\<lambda>l. rstrip l @ [NL]) (splitlines_from cur t)))"
proof (induction cur t arbitrary: q rule: splitlines_from.induct)
  case (1 cur)
  then show ?case using line_last[of q cur] clean_start[of q cur] by simp
next
  case (2 cur c)
  show ?case
  proof (cases "is_linebreak c")
    case True
    have "clean q cur" using "2.prems" clean_append[of q cur "[c]"] by simp
    then show ?thesis using True line_last[of q cur] by simp
  next
    case False
    then show ?thesis using "2.prems" line_last[of q "cur @ [c]"] by simp
  qed
next
  case (3 cur c d cs)
  have step: "clean q (concat (map (\<lambda>l. rstrip l @ [NL]) (cur # splitlines_from [] rest)))"
    if w: "list_all is_space w" "w \<noteq> []" and t: "c # d # cs = w @ rest"
      and ih: "\<And>q. clean q ([] @ rest) \<Longrightarrow>
                clean q (concat (map (\<lambda>l. rstrip l @ [NL]) (splitlines_from [] rest)))"
    for w rest
  proof -
    have a: "clean q ((cur @ w) @ rest)" using "3.prems" t by simp
    then have c1: "clean q (cur @ w)" and c2: "clean (run_lex q (cur @ w)) rest"
      using clean_append[of q "cur @ w" rest] by blast+
    have "clean q cur" using c1 clean_append[of q cur w] by blast
    then have s: "run_lex q (rstrip cur @ [NL]) = run_lex q (cur @ w)"
      and k: "clean q (rstrip cur @ [NL])"
      using line_step[of q cur w] w by blast+
    have "clean (run_lex q (rstrip cur @ [NL])) (concat (map (\<lambda>l. rstrip l @ [NL]) (splitlines_from [] rest)))"
      using ih[of "run_lex q (cur @ w)"] c2 s by simp
    with k show ?thesis
      using clean_append[of q "rstrip cur @ [NL]"] by simp
  qed
  show ?case
  proof (cases "c = CR \<and> d = NL")
    case True
    then have e: "splitlines_from cur (c # d # cs) = cur # splitlines_from [] cs" by simp
    have "clean q (concat (map (\<lambda>l. rstrip l @ [NL]) (cur # splitlines_from [] cs)))"
      using step[of "[CR, NL]" cs] "3.IH"(1) True linebreak_space[of CR] by simp
    then show ?thesis by (simp only: e)
  next
    case False
    show ?thesis
    proof (cases "is_linebreak c")
      case True
      with False have e: "splitlines_from cur (c # d # cs) = cur # splitlines_from [] (d # cs)"
        by auto
      have "clean q (concat (map (\<lambda>l. rstrip l @ [NL]) (cur # splitlines_from [] (d # cs))))"
        using step[of "[c]" "d # cs"] "3.IH"(2) False True linebreak_space[of c] by simp
      then show ?thesis by (simp only: e)
    next
      case n: False
      with False have e: "splitlines_from cur (c # d # cs) = splitlines_from (cur @ [c]) (d # cs)"
        by auto
      have "clean q (concat (map (\<lambda>l. rstrip l @ [NL]) (splitlines_from (cur @ [c]) (d # cs))))"
        using False n "3.IH"(3)[of q] "3.prems" by simp
      then show ?thesis by (simp only: e)
    qed
  qed
qed

lemma post_clean: "clean L_code u \<Longrightarrow> clean L_code (post u)"
  using lines_clean[of L_code "[]" u] by (simp add: post_lines splitlines_def)

lemma scan_post_fixed: "scan (post (scan s)) = post (scan s)"
  using clean_scanL_id[of S_normal "post (scan s)"] post_clean[OF scan_clean[of s]]
  by (simp add: scan_scanL)

lemma splitlines_from_line:
  "list_all (\<lambda>c. \<not> is_linebreak c) l \<Longrightarrow>
   splitlines_from cur (l @ NL # rest) = (cur @ l) # splitlines_from [] rest"
proof (induction l arbitrary: cur)
  case Nil
  show ?case by (cases rest) simp_all
next
  case (Cons c l)
  then have c: "c \<noteq> CR" by auto
  obtain e r where "l @ NL # rest = e # r" by (cases "l @ NL # rest") auto
  then show ?case using Cons c by simp
qed

lemma splitlines_from_concat:
  "list_all (list_all (\<lambda>c. \<not> is_linebreak c)) ls \<Longrightarrow>
   splitlines_from [] (concat (map (\<lambda>l. l @ [NL]) ls)) = ls"
  by (induction ls) (simp_all add: splitlines_from_line)

lemma rstrip_idem: "rstrip (rstrip l) = rstrip l"
proof (cases "dropWhile is_space (rev l)")
  case Nil
  then show ?thesis by (simp add: rstrip_def)
next
  case (Cons x xs)
  then have "\<not> is_space x" using hd_dropWhile[of is_space "rev l"] by simp
  with Cons show ?thesis by (simp add: rstrip_def)
qed

lemma post_post: "post (post u) = post u"
proof (cases "splitlines u = []")
  case True
  then have "post u = [NL]" by (simp add: post_lines)
  then show ?thesis by (simp add: post_def splitlines_def rstrip_def)
next
  case False
  let ?ls = "map rstrip (splitlines u)"
  have p: "post u = concat (map (\<lambda>l. l @ [NL]) ?ls)"
    using False by (simp add: post_lines comp_def)
  have "list_all (list_all (\<lambda>c. \<not> is_linebreak c)) ?ls"
    using splitlines_clean[of _ u] set_rstrip by (fastforce simp: list_all_iff)
  then have "splitlines (post u) = ?ls"
    unfolding p splitlines_def by (rule splitlines_from_concat)
  then have "post (post u) = concat (map (\<lambda>l. rstrip l @ [NL]) ?ls)"
    using False by (simp add: post_lines)
  then show ?thesis using p by (simp add: comp_def rstrip_idem)
qed

lemma strip_idempotent: "strip_comments (strip_comments s) = strip_comments s"
  by (simp add: strip_comments_def scan_post_fixed post_post)

subsection \<open>The claim\<close>

text \<open>
  C7, as the code has it: on a text on which the scanner is never in the line comment
  state the scan pass returns the text unchanged; if moreover the newline is the only
  line boundary character in the text, the final output is every line of the text with
  its trailing whitespace removed and one newline after it (a single newline for the
  empty text). For every text, applying the transformation twice gives the same result
  as applying it once.
\<close>

theorem no_comment_normalised_idempotent:
  "(S_line_comment \<notin> set (states s) \<longrightarrow> scan s = s)
   \<and> (S_line_comment \<notin> set (states s) \<and> (\<forall>c\<in>set s. is_linebreak c \<longrightarrow> c = NL) \<longrightarrow>
        strip_comments s =
          (if s = [] then [NL] else concat (map (\<lambda>l. rstrip l @ [NL]) (nl_lines s))))
   \<and> strip_comments (strip_comments s) = strip_comments s"
proof -
  have 2: "strip_comments s =
          (if s = [] then [NL] else concat (map (\<lambda>l. rstrip l @ [NL]) (nl_lines s)))"
    if a: "S_line_comment \<notin> set (states s)" and b: "\<forall>c\<in>set s. is_linebreak c \<longrightarrow> c = NL"
  proof -
    have "scan s = s" using a by (rule no_comment_scan)
    moreover have "splitlines s = nl_lines s"
      using splitlines_nl_only[OF b, of "[]"] by (simp add: splitlines_def nl_lines_def)
    moreover have "splitlines s = [] \<longleftrightarrow> s = []"
      by (simp add: splitlines_def splitlines_from_Nil)
    ultimately show ?thesis by (simp add: strip_comments_def post_lines)
  qed
  show ?thesis using no_comment_scan[of s] 2 strip_idempotent[of s] by blast
qed

theorem no_comment_normalised_idempotent_witness:
  \<open>S_line_comment \<notin> set (states (ascii ''a = "//";  '' @ [NL] @ ascii ''b''))
   \<and> scan (ascii ''a = "//";  '' @ [NL] @ ascii ''b'') = ascii ''a = "//";  '' @ [NL] @ ascii ''b''
   \<and> strip_comments (ascii ''a = "//";  '' @ [NL] @ ascii ''b'')
        = ascii ''a = "//";'' @ [NL] @ ascii ''b'' @ [NL]
   \<and> strip_comments (strip_comments (ascii ''a = "//";  '' @ [NL] @ ascii ''b''))
        = strip_comments (ascii ''a = "//";  '' @ [NL] @ ascii ''b'')\<close>
  using no_comment_normalised_idempotent[of \<open>ascii ''a = "//";  '' @ [NL] @ ascii ''b''\<close>]
  by (simp add: states_def scan_eval post_eval nl_lines_def)

text \<open>
  C7 as stated fails on the text made of \<open>a\<close>, a form feed, \<open>b\<close> and two newlines, a
  text without line comment: the form feed comes out as a newline and the blank line at
  the end is kept, so the output is not the input with trailing whitespace removed and
  exactly one trailing newline.
\<close>

theorem no_comment_normalised_counterexample:
  "S_line_comment \<notin> set (states [97, 12, 98, 10, 10])
   \<and> strip_comments [97, 12, 98, 10, 10] = [97, 10, 98, 10, 10]
   \<and> spec_normal [97, 12, 98, 10, 10] = [97, 12, 98, 10]
   \<and> strip_comments [97, 12, 98, 10, 10] \<noteq> spec_normal [97, 12, 98, 10, 10]"
  by (simp add: states_def scan_eval post_eval spec_normal_def nl_lines_def)

end
